theory Spec2Isabelle
  imports Main "HOL-Library.Sublist"
begin

section \<open>JavaScript values\<close>

text \<open>
  Everything the program receives from the model client and from the tool server is JSON.
  A value of the program is a \<open>json option\<close>, where \<open>None\<close> is JavaScript's
  \<open>undefined\<close>. Numbers are the integral ones below \<open>10^21\<close> in magnitude (JSON such
  as \<open>1\<close> or \<open>-7\<close>), which print as decimal numerals; the program only tests a number
  for being zero and prints it. Strings are lists of \<open>char\<close>, read as code units below
  256. An object is the list of its own properties in property order, each key once.
\<close>

datatype json =
    JNull
  | JBool bool
  | JNumber int
  | JString string
  | JArray "json list"
  | JObject "(string \<times> json) list"

text \<open>An exception thrown by the program or by a built-in it calls.\<close>

datatype js_error =
    TypeError
  | SyntaxError
  | McpError string
  | TransportError string

text \<open>Sequencing of computations that may throw: \<open>Inl\<close> is the thrown exception.\<close>

definition and_then :: "js_error + 'a \<Rightarrow> ('a \<Rightarrow> js_error + 'b) \<Rightarrow> js_error + 'b" where
  "and_then m f = (case m of Inl e \<Rightarrow> Inl e | Inr x \<Rightarrow> f x)"

text \<open>ToBoolean, as used by \<open>&&\<close>, \<open>||\<close>, \<open>!\<close> and \<open>if\<close>.\<close>

fun truthy :: "json option \<Rightarrow> bool" where
  "truthy None = False"
| "truthy (Some JNull) = False"
| "truthy (Some (JBool b)) = b"
| "truthy (Some (JNumber n)) = (n \<noteq> 0)"
| "truthy (Some (JString s)) = (s \<noteq> [])"
| "truthy (Some (JArray xs)) = True"
| "truthy (Some (JObject kvs)) = True"

text \<open>
  Property read \<open>v.k\<close>. Reading a property of \<open>undefined\<close> or \<open>null\<close> throws a TypeError.
  The program reads only the keys \<open>name\<close>, \<open>arguments\<close>, \<open>isError\<close>, \<open>content\<close>, \<open>text\<close>,
  \<open>error\<close>, \<open>message\<close>, \<open>result\<close>, \<open>tools\<close>, \<open>inputSchema\<close>, \<open>required\<close>, \<open>properties\<close>,
  \<open>type\<close> and \<open>description\<close>; none of them is inherited from a prototype of a JSON value,
  so the read is a lookup among the own properties of an object and \<open>undefined\<close> elsewhere.
\<close>

fun member :: "json option \<Rightarrow> string \<Rightarrow> js_error + json option" where
  "member None k = Inl TypeError"
| "member (Some JNull) k = Inl TypeError"
| "member (Some (JObject kvs)) k = Inr (map_of kvs k)"
| "member (Some v) k = Inr None"

text \<open>Element read \<open>v[0]\<close>.\<close>

fun index0 :: "json option \<Rightarrow> js_error + json option" where
  "index0 None = Inl TypeError"
| "index0 (Some JNull) = Inl TypeError"
| "index0 (Some (JArray xs)) = Inr (case xs of [] \<Rightarrow> None | x # _ \<Rightarrow> Some x)"
| "index0 (Some (JString s)) = Inr (case s of [] \<Rightarrow> None | c # _ \<Rightarrow> Some (JString [c]))"
| "index0 (Some (JObject kvs)) = Inr (map_of kvs ''0'')"
| "index0 (Some v) = Inr None"

subsection \<open>Decimal numerals\<close>

definition digit_char :: "nat \<Rightarrow> char" where
  "digit_char d = char_of (48 + d)"

function show_nat :: "nat \<Rightarrow> string" where
  "show_nat n = (if n < 10 then [digit_char n] else show_nat (n div 10) @ [digit_char (n mod 10)])"
  by pat_completeness auto
termination
  by (relation "measure (\<lambda>n. n)") auto

definition show_int :: "int \<Rightarrow> string" where
  "show_int i = (if i < 0 then CHR ''-'' # show_nat (nat (- i)) else show_nat (nat i))"

subsection \<open>ToString\<close>

text \<open>
  \<open>Array.prototype.join\<close> on strings already computed: the separator goes between
  neighbours. A conversion that throws makes the join throw.
\<close>

fun join_strs :: "string \<Rightarrow> (js_error + string) list \<Rightarrow> js_error + string" where
  "join_strs sep [] = Inr []"
| "join_strs sep [x] = x"
| "join_strs sep (x # y # ys) =
     and_then x (\<lambda>a. and_then (join_strs sep (y # ys)) (\<lambda>b. Inr (a @ sep @ b)))"

text \<open>
  ToString of a JSON value, as a template literal performs it. An array is joined with
  commas, \<open>null\<close> elements giving the empty string. An object gives \<open>[object Object]\<close>
  through \<open>Object.prototype.toString\<close>, unless it has an own property \<open>toString\<close>, which
  for a JSON value is never callable: then the conversion throws a TypeError.
\<close>

fun to_str :: "json \<Rightarrow> js_error + string" where
  "to_str JNull = Inr ''null''"
| "to_str (JBool b) = Inr (if b then ''true'' else ''false'')"
| "to_str (JNumber n) = Inr (show_int n)"
| "to_str (JString s) = Inr s"
| "to_str (JArray xs) = join_strs '','' (map (\<lambda>x. if x = JNull then Inr [] else to_str x) xs)"
| "to_str (JObject kvs) =
     (if ''toString'' \<in> fst ` set kvs then Inl TypeError else Inr ''[object Object]'')"

definition to_str_v :: "json option \<Rightarrow> js_error + string" where
  "to_str_v v = (case v of None \<Rightarrow> Inr ''undefined'' | Some j \<Rightarrow> to_str j)"

text \<open>The conversion \<open>join\<close> applies to an element: \<open>undefined\<close> and \<open>null\<close> give the empty string.\<close>

definition join_elem :: "json option \<Rightarrow> js_error + string" where
  "join_elem v = (case v of None \<Rightarrow> Inr [] | Some JNull \<Rightarrow> Inr [] | Some j \<Rightarrow> to_str j)"

section \<open>Strings\<close>

text \<open>\<open>s.includes(sub)\<close>.\<close>

definition includes_js :: "string \<Rightarrow> string \<Rightarrow> bool" where
  "includes_js s sub = sublist sub s"

text \<open>
  The first occurrence of a separator: the text before it and the text after it.
\<close>

fun cut :: "'a list \<Rightarrow> 'a list \<Rightarrow> ('a list \<times> 'a list) option" where
  "cut sep [] = (if sep = [] then Some ([], []) else None)"
| "cut sep (c # cs) =
     (if prefix sep (c # cs) then Some ([], drop (length sep) (c # cs))
      else map_option (\<lambda>(a, b). (c # a, b)) (cut sep cs))"

text \<open>
  \<open>s.split(sep)\<close>: the pieces between successive occurrences of the separator, found
  from left to right without overlap. The empty separator splits into code units.
\<close>

function split_js :: "string \<Rightarrow> string \<Rightarrow> string list" where
  "split_js sep s =
     (if sep = [] then map (\<lambda>c. [c]) s
      else (case cut sep s of None \<Rightarrow> [s] | Some (a, b) \<Rightarrow> a # split_js sep b))"
  by pat_completeness auto
termination
proof (relation "measure (\<lambda>(sep, s). length s)")
  show "wf (measure (\<lambda>(sep, s). length s))" by simp
next
  fix sep s :: string and x a b
  assume ne: "sep \<noteq> []" and c: "cut sep s = Some x" "(a, b) = x"
  have shorter: "cut sep u = Some (v, b) \<Longrightarrow> length b < length u" for u v
  proof (induction u arbitrary: v)
    case Nil
    with ne show ?case by simp
  next
    case (Cons d ds)
    show ?case
    proof (cases "prefix sep (d # ds)")
      case True
      with Cons.prems ne show ?thesis by auto
    next
      case False
      with Cons.prems obtain v' where "cut sep ds = Some (v', b)" by auto
      with Cons.IH show ?thesis by fastforce
    qed
  qed
  from c have "cut sep s = Some (a, b)" by simp
  then have "length b < length s" by (rule shorter)
  then show "((sep, b), (sep, s)) \<in> measure (\<lambda>(sep, s). length s)" by simp
qed

declare split_js.simps [simp del]

text \<open>
  \<open>s.trim()\<close>: white space and line terminators are removed at both ends. Below 256 these
  are tab, line feed, vertical tab, form feed, carriage return, space and no-break space.
\<close>

definition is_space :: "char \<Rightarrow> bool" where
  "is_space c = (of_char c \<in> {9, 10, 11, 12, 13, 32, 160 :: nat})"

definition trim :: "string \<Rightarrow> string" where
  "trim s = rev (dropWhile is_space (rev (dropWhile is_space s)))"

section \<open>The streaming tool-call detector\<close>

text \<open>One entry of \<open>chatHistory\<close>.\<close>

record turn =
  role :: string
  content :: string

text \<open>
  What the loop prints with \<open>console.log\<close> and \<open>console.error\<close>. The echo of the tokens
  on standard output is left out.
\<close>

datatype event =
    ToolUsed string json
  | ToolSuccess
  | ToolErrorText "json option"
  | ParseFailure js_error

text \<open>
  How an awaited promise ends: fulfilled with a value, rejected with an error, or never
  settled, in which case the \<open>await\<close> never returns.
\<close>

datatype settle = Pending | Fulfilled "json option" | Rejected js_error

text \<open>
  The state one input line works on: the shared history, the console, and the state
  \<open>world\<close> of whatever answers \<open>mcp.callTool\<close>.
\<close>

record 'w agent =
  history :: "turn list"
  console :: "event list"
  world :: 'w

text \<open>
  The outcome of the \<open>try\<close> block of one loop iteration: the loop goes on (nothing was
  dispatched, or an exception was caught and printed), a turn was pushed and the function
  calls itself, or the awaited tool call never settles.
\<close>

datatype 'w flow = Continue "'w agent" | Recurse "'w agent" | Hang

definition caught :: "js_error \<Rightarrow> 'w agent \<Rightarrow> 'w flow" where
  "caught e st = Continue (st\<lparr>console := console st @ [ParseFailure e]\<rparr>)"

text \<open>\<open>result.content.map((c) => c.text).join("\\n")\<close>; only an array has \<open>map\<close>.\<close>

definition content_texts :: "json option \<Rightarrow> js_error + string" where
  "content_texts c =
     (case c of
        Some (JArray xs) \<Rightarrow>
          join_strs ''\<newline>'' (map (\<lambda>x. and_then (member (Some x) ''text'') join_elem) xs)
      | _ \<Rightarrow> Inl TypeError)"

text \<open>
  The branch taken when \<open>callTool\<close> has returned \<open>result\<close> (lines 171 to 187): the turn
  that is pushed, or the exception thrown before anything is pushed.
\<close>

definition on_result :: "string \<Rightarrow> json option \<Rightarrow> 'w agent \<Rightarrow> 'w flow" where
  "on_result nm result st =
     (case member result ''isError'' of
        Inl e \<Rightarrow> caught e st
      | Inr flag \<Rightarrow>
          if \<not> truthy flag then
            (let st1 = st\<lparr>console := console st @ [ToolSuccess]\<rparr> in
             case and_then (member result ''content'') content_texts of
               Inl e \<Rightarrow> caught e st1
             | Inr out \<Rightarrow>
                 Recurse (st1\<lparr>history := history st1 @
                   [\<lparr>role = ''user'',
                     content = ''Tool '' @ nm @ '' output:\<newline>'' @ out\<rparr>]\<rparr>))
          else
            (case and_then (and_then (member result ''content'') index0)
                    (\<lambda>c0. member c0 ''text'') of
               Inl e \<Rightarrow> caught e st
             | Inr txt \<Rightarrow>
                 (let st1 = st\<lparr>console := console st @ [ToolErrorText txt]\<rparr> in
                  case to_str_v txt of
                    Inl e \<Rightarrow> caught e st1
                  | Inr msg \<Rightarrow>
                      Recurse (st1\<lparr>history := history st1 @
                        [\<lparr>role = ''user'',
                          content = ''Tool '' @ nm @ '' error: '' @ msg\<rparr>]\<rparr>))))"

text \<open>
  The body of the inner \<open>if\<close> (lines 167 to 187) for the payload \<open>nm\<close>, \<open>args\<close>: the
  name is printed, the tool is called and its result handled. \<open>call\<close> is
  \<open>await mcp.callTool\<close>; a rejection is an exception at the \<open>await\<close>.
\<close>

definition dispatch ::
  "('w \<Rightarrow> json \<Rightarrow> json \<Rightarrow> settle \<times> 'w) \<Rightarrow> json \<Rightarrow> json \<Rightarrow> 'w agent \<Rightarrow> 'w flow" where
  "dispatch call nm args st =
     (case to_str nm of
        Inl e \<Rightarrow> caught e st
      | Inr nstr \<Rightarrow>
          (let st1 = st\<lparr>console := console st @ [ToolUsed nstr args]\<rparr> in
           case call (world st1) nm args of
             (Pending, w) \<Rightarrow> Hang
           | (Rejected e, w) \<Rightarrow> caught e (st1\<lparr>world := w\<rparr>)
           | (Fulfilled result, w) \<Rightarrow> on_result nstr result (st1\<lparr>world := w\<rparr>)))"

text \<open>
  The \<open>try\<close> block (lines 163 to 192) on the text between the fences. \<open>parse\<close> is
  \<open>JSON.parse\<close>, with \<open>None\<close> for a SyntaxError. The condition of the inner \<open>if\<close> is
  \<open>jsonContent.name && jsonContent.arguments\<close>: the second operand is read only when the
  first is truthy.
\<close>

definition try_block ::
  "(string \<Rightarrow> json option) \<Rightarrow> ('w \<Rightarrow> json \<Rightarrow> json \<Rightarrow> settle \<times> 'w) \<Rightarrow>
   string \<Rightarrow> 'w agent \<Rightarrow> 'w flow" where
  "try_block parse call body st =
     (case parse body of
        None \<Rightarrow> caught SyntaxError st
      | Some jc \<Rightarrow>
          (case member (Some jc) ''name'' of
             Inl e \<Rightarrow> caught e st
           | Inr None \<Rightarrow> Continue st
           | Inr (Some nm) \<Rightarrow>
               if \<not> truthy (Some nm) then Continue st
               else
                 (case member (Some jc) ''arguments'' of
                    Inl e \<Rightarrow> caught e st
                  | Inr None \<Rightarrow> Continue st
                  | Inr (Some args) \<Rightarrow>
                      if \<not> truthy (Some args) then Continue st
                      else dispatch call nm args st)))"

text \<open>
  The text the \<open>try\<close> block is run on (lines 158 to 162): \<open>jsonParts[0]\<close> when both
  splits give more than one piece.
\<close>

definition fenced_body :: "string \<Rightarrow> string option" where
  "fenced_body full =
     (if includes_js full ''```json'' \<and> includes_js full ''```'' then
        (let parts = split_js ''```json\<newline>'' full in
         if length parts > 1 then
           (let jsonParts = split_js ''```'' (parts ! 1) in
            if length jsonParts > 1 then Some (jsonParts ! 0) else None)
         else None)
      else None)"

text \<open>
  The \<open>for await\<close> loop of \<open>getStreamedResponse\<close> over the tokens still to come, with
  \<open>fullContent\<close> so far. At the end of the stream the function returns \<open>fullContent\<close>.
\<close>

datatype 'w scanned = Done string "'w agent" | Dispatched "'w agent" | Stuck

fun scan ::
  "(string \<Rightarrow> json option) \<Rightarrow> ('w \<Rightarrow> json \<Rightarrow> json \<Rightarrow> settle \<times> 'w) \<Rightarrow>
   string \<Rightarrow> string list \<Rightarrow> 'w agent \<Rightarrow> 'w scanned" where
  "scan parse call full [] st = Done full st"
| "scan parse call full (t # ts) st =
     (case fenced_body (full @ t) of
        None \<Rightarrow> scan parse call (full @ t) ts st
      | Some body \<Rightarrow>
          (case try_block parse call body st of
             Continue st' \<Rightarrow> scan parse call (full @ t) ts st'
           | Recurse st' \<Rightarrow> Dispatched st'
           | Hang \<Rightarrow> Stuck))"

text \<open>
  \<open>getStreamedResponse\<close>: one model invocation after another, until one ends without a
  dispatch. \<open>chat\<close> is \<open>ollama.chat\<close>: the tokens the model streams for a history; the
  model client is taken to deliver a finite stream and not to fail. The function need not
  return: the model may ask for a tool in every round, and a tool call may never settle.
\<close>

partial_function (option) getStreamedResponse ::
  "(string \<Rightarrow> json option) \<Rightarrow> ('w \<Rightarrow> json \<Rightarrow> json \<Rightarrow> settle \<times> 'w) \<Rightarrow>
   (turn list \<Rightarrow> string list) \<Rightarrow> 'w agent \<Rightarrow> (string \<times> 'w agent) option" where
  "getStreamedResponse parse call chat st =
     (case scan parse call [] (chat (history st)) st of
        Done full st' \<Rightarrow> Some (full, st')
      | Dispatched st' \<Rightarrow> getStreamedResponse parse call chat st'
      | Stuck \<Rightarrow> None)"

text \<open>The handler of one input line in \<open>main\<close> (lines 138 to 207).\<close>

definition on_line ::
  "(string \<Rightarrow> json option) \<Rightarrow> ('w \<Rightarrow> json \<Rightarrow> json \<Rightarrow> settle \<times> 'w) \<Rightarrow>
   (turn list \<Rightarrow> string list) \<Rightarrow> string \<Rightarrow> 'w agent \<Rightarrow> 'w agent option" where
  "on_line parse call chat input st =
     (case getStreamedResponse parse call chat
             (st\<lparr>history := history st @ [\<lparr>role = ''user'', content = input\<rparr>]\<rparr>) of
        None \<Rightarrow> None
      | Some (finalContent, st') \<Rightarrow>
          Some (if trim finalContent \<noteq> []
                then st'\<lparr>history := history st' @
                       [\<lparr>role = ''assistant'', content = finalContent\<rparr>]\<rparr>
                else st'))"

section \<open>The request client\<close>

text \<open>
  \<open>MCPStdioClient\<close>. Every call of \<open>sendMessage\<close> creates a promise; \<open>promises\<close> lists
  them in creation order, each with the request it was created for. The transport has one
  \<open>onmessage\<close> and one \<open>onerror\<close> slot; each holds the closure of one \<open>sendMessage\<close> call,
  named here by the index of the promise that closure settles. \<open>sent\<close> lists the messages
  handed to \<open>transport.send\<close>, \<open>killed\<close> says that \<open>stop\<close> has signalled the child process.
\<close>

record client =
  promises :: "(json \<times> settle) list"
  onmessage :: "nat option"
  onerror :: "nat option"
  sent :: "json list"
  killed :: bool

definition client_init :: client where
  "client_init = \<lparr>promises = [], onmessage = None, onerror = None, sent = [], killed = False\<rparr>"

text \<open>\<open>resolve\<close> and \<open>reject\<close>: a promise settles once, later calls change nothing.\<close>

definition settle_with :: "nat \<Rightarrow> settle \<Rightarrow> client \<Rightarrow> client" where
  "settle_with p v c =
     (if p < length (promises c) \<and> snd (promises c ! p) = Pending
      then c\<lparr>promises := (promises c)[p := (fst (promises c ! p), v)]\<rparr>
      else c)"

definition promise_state :: "client \<Rightarrow> nat \<Rightarrow> settle" where
  "promise_state c p = (if p < length (promises c) then snd (promises c ! p) else Pending)"

text \<open>
  \<open>sendMessage\<close> (lines 50 to 62): a new promise, both slots of the transport overwritten
  with its closure, the message handed to the transport. \<open>failure\<close> is the error with
  which \<open>transport.send\<close> rejects, if it does. The result is the promise and the new state.
\<close>

definition sendMessage :: "client \<Rightarrow> json \<Rightarrow> js_error option \<Rightarrow> nat \<times> client" where
  "sendMessage c message failure =
     (let p = length (promises c);
          c1 = c\<lparr>promises := promises c @ [(message, Pending)],
                 onmessage := Some p, onerror := Some p,
                 sent := sent c @ [message]\<rparr>
      in (p, case failure of None \<Rightarrow> c1 | Some e \<Rightarrow> settle_with p (Rejected e) c1))"

text \<open>
  What the closure installed at line 52 does with an inbound message: the settlement it
  passes to \<open>reject\<close> or \<open>resolve\<close>, or \<open>None\<close> if it throws before that. The correlation
  id of the message is not read.
\<close>

definition reply_of :: "json \<Rightarrow> settle option" where
  "reply_of response =
     (case member (Some response) ''error'' of
        Inl e \<Rightarrow> None
      | Inr err \<Rightarrow>
          if truthy err then
            (case and_then (member err ''message'') to_str_v of
               Inl e \<Rightarrow> None
             | Inr m \<Rightarrow> Some (Rejected (McpError (''MCP Error: '' @ m))))
          else
            (case member (Some response) ''result'' of
               Inl e \<Rightarrow> None
             | Inr r \<Rightarrow> Some (Fulfilled r)))"

text \<open>
  The transport delivers an inbound message: it calls the closure in the \<open>onmessage\<close>
  slot, which settles the promise of the \<open>sendMessage\<close> call that installed it.
\<close>

definition on_message :: "client \<Rightarrow> json \<Rightarrow> client" where
  "on_message c response =
     (case onmessage c of
        None \<Rightarrow> c
      | Some p \<Rightarrow> (case reply_of response of None \<Rightarrow> c | Some v \<Rightarrow> settle_with p v c))"

text \<open>The transport reports an error: it calls the closure in the \<open>onerror\<close> slot (line 59).\<close>

definition on_error :: "client \<Rightarrow> js_error \<Rightarrow> client" where
  "on_error c e = (case onerror c of None \<Rightarrow> c | Some p \<Rightarrow> settle_with p (Rejected e) c)"

definition listTools_message :: json where
  "listTools_message =
     JObject [(''jsonrpc'', JString ''2.0''), (''id'', JNumber 1),
              (''method'', JString ''tools/list''), (''params'', JObject [])]"

definition callTool_message :: "json \<Rightarrow> json \<Rightarrow> json" where
  "callTool_message name args =
     JObject [(''jsonrpc'', JString ''2.0''), (''id'', JNumber 2),
              (''method'', JString ''tools/call''),
              (''params'', JObject [(''name'', name), (''arguments'', args)])]"

definition listTools :: "client \<Rightarrow> js_error option \<Rightarrow> nat \<times> client" where
  "listTools c failure = sendMessage c listTools_message failure"

definition callTool :: "client \<Rightarrow> json \<Rightarrow> json \<Rightarrow> js_error option \<Rightarrow> nat \<times> client" where
  "callTool c name args failure = sendMessage c (callTool_message name args) failure"

text \<open>\<open>stop\<close> (lines 85 to 88) signals the child process and does nothing else.\<close>

definition stop :: "client \<Rightarrow> client" where
  "stop c = c\<lparr>killed := True\<rparr>"

text \<open>
  \<open>await\<close> on a promise while the messages in \<open>inbound\<close> arrive one after the other: it
  returns as soon as the promise is settled, and never if the messages run out first.
\<close>

fun await :: "nat \<Rightarrow> client \<Rightarrow> json list \<Rightarrow> settle \<times> client \<times> json list" where
  "await p c [] = (promise_state c p, c, [])"
| "await p c (r # rs) =
     (if promise_state c p = Pending then await p (on_message c r) rs
      else (promise_state c p, c, r # rs))"

text \<open>\<open>await mcp.callTool(name, args)\<close> against a peer whose messages are \<open>inbound\<close>.\<close>

definition await_callTool ::
  "client \<times> json list \<Rightarrow> json \<Rightarrow> json \<Rightarrow> settle \<times> client \<times> json list" where
  "await_callTool w name args =
     (case callTool (fst w) name args None of (p, c) \<Rightarrow> await p c (snd w))"

text \<open>Requests dispatched one after the other before any answer arrives, and answers arriving.\<close>

definition dispatch_all :: "client \<Rightarrow> json list \<Rightarrow> client" where
  "dispatch_all c reqs = fold (\<lambda>m c'. snd (sendMessage c' m None)) reqs c"

definition deliver_all :: "client \<Rightarrow> json list \<Rightarrow> client" where
  "deliver_all c resps = fold (\<lambda>r c'. on_message c' r) resps c"

text \<open>The correlation ids of the requests whose promise is not settled.\<close>

definition outstanding_ids :: "client \<Rightarrow> (js_error + json option) list" where
  "outstanding_ids c =
     map (\<lambda>q. member (Some (fst q)) ''id'') (filter (\<lambda>q. snd q = Pending) (promises c))"

section \<open>The schema adapter\<close>

text \<open>The objects \<open>getOllamaCompatibleTools\<close> builds (lines 94 to 117).\<close>

record ollama_property =
  prop_type :: "json option"
  prop_description :: "json option"

record ollama_parameters =
  params_type :: string
  properties :: "(string \<times> ollama_property) list"
  required :: "json option"

record ollama_function =
  fn_name :: "json option"
  fn_description :: "json option"
  fn_parameters :: ollama_parameters

record ollama_tool =
  tool_type :: string
  tool_function :: ollama_function

text \<open>
  \<open>Object.entries\<close> of a value that passed the \<open>if\<close>: the own properties of an object, the
  indexed elements of an array, the code units of a string, nothing for a number or boolean.
\<close>

fun entries :: "json \<Rightarrow> (string \<times> json) list" where
  "entries (JObject kvs) = kvs"
| "entries (JArray xs) = zip (map show_nat [0..<length xs]) xs"
| "entries (JString s) = zip (map show_nat [0..<length s]) (map (\<lambda>c. JString [c]) s)"
| "entries v = []"

text \<open>
  The assignment \<open>obj[key] = v\<close> on the object being built: a present key keeps its place
  and takes the new value, a new key goes to the end.
\<close>

fun assign :: "string \<Rightarrow> 'v \<Rightarrow> (string \<times> 'v) list \<Rightarrow> (string \<times> 'v) list" where
  "assign k v [] = [(k, v)]"
| "assign k v ((k', v') # kvs) = (if k = k' then (k, v) # kvs else (k', v') # assign k v kvs)"

text \<open>The body of the \<open>for\<close> loop (lines 103 to 106) for one entry.\<close>

definition convert_property :: "json \<Rightarrow> js_error + ollama_property" where
  "convert_property prop =
     and_then (member (Some prop) ''type'') (\<lambda>ty.
     and_then (member (Some prop) ''description'') (\<lambda>d.
     Inr \<lparr>prop_type = ty, prop_description = (if truthy d then d else None)\<rparr>))"

fun copy_properties ::
  "(string \<times> json) list \<Rightarrow> (string \<times> ollama_property) list \<Rightarrow>
   js_error + (string \<times> ollama_property) list" where
  "copy_properties [] acc = Inr acc"
| "copy_properties ((key, prop) # rest) acc =
     and_then (convert_property prop) (\<lambda>p. copy_properties rest (assign key p acc))"

text \<open>The function mapped over \<open>list.tools\<close> (lines 92 to 118).\<close>

definition convert_tool :: "json \<Rightarrow> js_error + ollama_tool" where
  "convert_tool tool =
     and_then (member (Some tool) ''inputSchema'') (\<lambda>schema.
     and_then (member schema ''required'') (\<lambda>req.
     and_then (member schema ''properties'') (\<lambda>props.
     and_then (case props of
                 None \<Rightarrow> Inr []
               | Some ps \<Rightarrow> if truthy props then copy_properties (entries ps) [] else Inr [])
       (\<lambda>copied.
     and_then (member (Some tool) ''name'') (\<lambda>nm.
     and_then (member (Some tool) ''description'') (\<lambda>descr.
     Inr \<lparr>tool_type = ''function'',
          tool_function =
            \<lparr>fn_name = nm, fn_description = descr,
             fn_parameters =
               \<lparr>params_type = ''object'', properties = copied,
                required = (if truthy req then req else Some (JArray []))\<rparr>\<rparr>\<rparr>))))))"

fun convert_all :: "json list \<Rightarrow> js_error + ollama_tool list" where
  "convert_all [] = Inr []"
| "convert_all (t # ts) =
     and_then (convert_tool t) (\<lambda>x. and_then (convert_all ts) (\<lambda>xs. Inr (x # xs)))"

text \<open>
  \<open>getOllamaCompatibleTools\<close> on the value \<open>list\<close> that \<open>await mcp.listTools()\<close> returned;
  only an array has \<open>map\<close>.
\<close>

definition getOllamaCompatibleTools :: "json option \<Rightarrow> js_error + ollama_tool list" where
  "getOllamaCompatibleTools list =
     and_then (member list ''tools'') (\<lambda>tools.
       case tools of Some (JArray ts) \<Rightarrow> convert_all ts | _ \<Rightarrow> Inl TypeError)"

section \<open>Notions used in the statements\<close>

text \<open>Whatever can happen to a client, and a sequence of such happenings.\<close>

datatype happening = Request json "js_error option" | Response json | Failure js_error | Stop

fun happen :: "client \<Rightarrow> happening \<Rightarrow> client" where
  "happen c (Request m failure) = snd (sendMessage c m failure)"
| "happen c (Response r) = on_message c r"
| "happen c (Failure e) = on_error c e"
| "happen c Stop = stop c"

definition run :: "client \<Rightarrow> happening list \<Rightarrow> client" where
  "run c hs = foldl happen c hs"

text \<open>
  Demultiplexing as the specification words it: after the requests have been dispatched
  and the responses have arrived, each request is settled by the response that carries
  its correlation id.
\<close>

definition demultiplexed :: "json list \<Rightarrow> json list \<Rightarrow> bool" where
  "demultiplexed reqs resps =
     (let c = deliver_all (dispatch_all client_init reqs) resps in
      list_all (\<lambda>i. list_all (\<lambda>r.
          member (Some r) ''id'' \<noteq> member (Some (reqs ! i)) ''id'' \<or>
          Some (promise_state c i) = reply_of r) resps) [0..<length reqs])"

fun is_rejected :: "settle \<Rightarrow> bool" where
  "is_rejected (Rejected e) = True"
| "is_rejected s = False"

text \<open>The two fences, and the first piece of a split.\<close>

abbreviation open_fence :: string where
  "open_fence \<equiv> ''```json\<newline>''"

abbreviation close_fence :: string where
  "close_fence \<equiv> ''```''"

definition first_piece :: "'a list \<Rightarrow> 'a list \<Rightarrow> 'a list" where
  "first_piece sep s = (case cut sep s of None \<Rightarrow> s | Some (a, b) \<Rightarrow> a)"

text \<open>
  A text between fences that the loop takes for a tool call: it parses, and both \<open>name\<close>
  and \<open>arguments\<close> are truthy.
\<close>

definition tool_call_json :: "(string \<Rightarrow> json option) \<Rightarrow> string \<Rightarrow> bool" where
  "tool_call_json parse body =
     (case parse body of
        None \<Rightarrow> False
      | Some jc \<Rightarrow>
          (case member (Some jc) ''name'' of
             Inl e \<Rightarrow> False
           | Inr nm \<Rightarrow>
               truthy nm \<and>
               (case member (Some jc) ''arguments'' of Inl e \<Rightarrow> False | Inr args \<Rightarrow> truthy args)))"

text \<open>
  A text contains a fenced tool-call block: an opening fence at \<open>i\<close>, a closing fence at
  \<open>j\<close> behind it, and a tool call between the two.
\<close>

definition block_at :: "(string \<Rightarrow> json option) \<Rightarrow> string \<Rightarrow> nat \<Rightarrow> nat \<Rightarrow> bool" where
  "block_at parse text i j =
     (prefix open_fence (drop i text) \<and> i + length open_fence \<le> j \<and>
      prefix close_fence (drop j text) \<and>
      tool_call_json parse (take (j - (i + length open_fence)) (drop (i + length open_fence) text)))"

definition contains_tool_block :: "(string \<Rightarrow> json option) \<Rightarrow> string \<Rightarrow> bool" where
  "contains_tool_block parse text =
     list_ex (\<lambda>i. list_ex (\<lambda>j. block_at parse text i j) [0..<Suc (length text)])
       [0..<Suc (length text)]"

fun is_parse_failure :: "event \<Rightarrow> bool" where
  "is_parse_failure (ParseFailure e) = True"
| "is_parse_failure ev = False"

text \<open>
  The schema adapter as the specification words it, for one parameter: type and
  description are copied. \<open>field\<close> is an own property of an object, \<open>undefined\<close> when the
  object has none of that name.
\<close>

fun field :: "json \<Rightarrow> string \<Rightarrow> json option" where
  "field (JObject kvs) k = map_of kvs k"
| "field v k = None"

definition copied_property :: "json \<Rightarrow> ollama_property" where
  "copied_property prop =
     \<lparr>prop_type = field prop ''type'', prop_description = field prop ''description''\<rparr>"

text \<open>
  The adapter as the code has it, in the words of the specification where the two agree:
  name and description of the tool verbatim; for each declared parameter its type, and
  its description unless that is falsy; the required list verbatim, and the empty list
  when it is absent or falsy.
\<close>

definition adapted_property :: "json \<Rightarrow> ollama_property" where
  "adapted_property prop =
     \<lparr>prop_type = field prop ''type'',
      prop_description =
        (if truthy (field prop ''description'') then field prop ''description'' else None)\<rparr>"

definition declared_parameters :: "json \<Rightarrow> (string \<times> json) list" where
  "declared_parameters schema =
     (case field schema ''properties'' of Some (JObject props) \<Rightarrow> props | _ \<Rightarrow> [])"

definition adapted_tool :: "json \<Rightarrow> ollama_tool" where
  "adapted_tool tool =
     (case field tool ''inputSchema'' of
        Some schema \<Rightarrow>
          \<lparr>tool_type = ''function'',
           tool_function =
             \<lparr>fn_name = field tool ''name'', fn_description = field tool ''description'',
              fn_parameters =
                \<lparr>params_type = ''object'',
                 properties = map (\<lambda>kp. (fst kp, adapted_property (snd kp)))
                                (declared_parameters schema),
                 required =
                   (if truthy (field schema ''required'') then field schema ''required''
                    else Some (JArray []))\<rparr>\<rparr>\<rparr>
      | None \<Rightarrow>
          \<lparr>tool_type = ''function'',
           tool_function =
             \<lparr>fn_name = None, fn_description = None,
              fn_parameters =
                \<lparr>params_type = ''object'', properties = [], required = None\<rparr>\<rparr>\<rparr>)"

text \<open>
  A tool definition as the peer sends it: an object whose \<open>inputSchema\<close> is an object
  whose \<open>properties\<close>, if present, is an object with one non-null entry per parameter.
\<close>

definition well_formed_tool :: "json \<Rightarrow> bool" where
  "well_formed_tool tool =
     (case tool of
        JObject fs \<Rightarrow>
          (case map_of fs ''inputSchema'' of
             Some (JObject schema) \<Rightarrow>
               (case map_of schema ''properties'' of
                  None \<Rightarrow> True
                | Some (JObject props) \<Rightarrow>
                    distinct (map fst props) \<and> list_all (\<lambda>kp. snd kp \<noteq> JNull) props
                | Some v \<Rightarrow> False)
           | _ \<Rightarrow> False)
      | _ \<Rightarrow> False)"

text \<open>The tool of the specification's example, and one whose parameter has an empty description.\<close>

definition example_tool :: json where
  "example_tool =
     JObject
       [(''name'', JString ''t''), (''description'', JString ''does t''),
        (''inputSchema'',
         JObject
           [(''type'', JString ''object''),
            (''properties'',
             JObject
               [(''a'', JObject [(''type'', JString ''string''), (''description'', JString ''d''),
                                (''enum'', JArray [JString ''u'', JString ''v''])]),
                (''b'', JObject [(''type'', JString ''number'')])]),
            (''required'', JArray [JString ''a''])])]"

definition undescribed_tool :: json where
  "undescribed_tool =
     JObject
       [(''name'', JString ''t''), (''description'', JString ''does t''),
        (''inputSchema'',
         JObject
           [(''properties'',
             JObject [(''a'', JObject [(''type'', JString ''string''), (''description'', JString [])])])])]"

text \<open>
  \<open>JSON.parse\<close> on the texts of the examples: the two texts listed are JSON and give the
  values listed; the examples apply it to no other text but \<open>bad\<close> followed by a line
  feed, which is not JSON.
\<close>

definition example_parse :: "string \<Rightarrow> json option" where
  "example_parse =
     map_of
       [(''{\"name\":\"x\",\"arguments\":{}}\<newline>'',
           JObject [(''name'', JString ''x''), (''arguments'', JObject [])]),
        (''{\"name\":\"\",\"arguments\":{}}\<newline>'',
           JObject [(''name'', JString []), (''arguments'', JObject [])])]"

text \<open>
  The examples: a model client that streams the same tokens whatever the history, the
  state of an agent at the start of a session, and the messages of a peer.
\<close>

definition say :: "string list \<Rightarrow> turn list \<Rightarrow> string list" where
  "say toks h = toks"

definition agent_init :: "'w \<Rightarrow> 'w agent" where
  "agent_init w = \<lparr>history = [], console = [], world = w\<rparr>"

definition result_message :: "int \<Rightarrow> json \<Rightarrow> json" where
  "result_message i r = JObject [(''jsonrpc'', JString ''2.0''), (''id'', JNumber i), (''result'', r)]"

definition ok_result :: json where
  "ok_result =
     JObject [(''isError'', JBool False),
              (''content'', JArray [JObject [(''text'', JString ''ok'')]])]"

definition valid_block :: string where
  "valid_block = ''```json\<newline>{\"name\":\"x\",\"arguments\":{}}\<newline>```''"






text \<open>A response of the peer that reports an error.\<close>

definition error_message :: "int \<Rightarrow> string \<Rightarrow> json" where
  "error_message i msg =
     JObject [(''jsonrpc'', JString ''2.0''), (''id'', JNumber i),
              (''error'', JObject [(''message'', JString msg)])]"

text \<open>What a round has printed when the loop ends; nothing is known of a round that hangs.\<close>

fun printed :: "'w scanned \<Rightarrow> event list" where
  "printed (Done full st) = console st"
| "printed (Dispatched st) = console st"
| "printed Stuck = []"

section \<open>First occurrences and the text between the fences\<close>

text \<open>
  The first occurrence of a separator stays where it is when the text grows. So the text
  between the first opening fence and the closing fence behind it, once the loop has
  seen it, is the only text the loop ever hands to \<open>JSON.parse\<close> in that round.
\<close>

lemma cut_decomp: "cut sep s = Some (a, b) \<Longrightarrow> s = a @ sep @ b"
proof (induction s arbitrary: a)
  case Nil
  then show ?case by (simp split: if_splits)
next
  case (Cons c cs)
  show ?case
  proof (cases "prefix sep (c # cs)")
    case True
    with Cons.prems have "a = []" "b = drop (length sep) (c # cs)" by auto
    with True show ?thesis by (metis append_Nil append_eq_conv_conj prefixE)
  next
    case False
    with Cons.prems obtain a' where a': "cut sep cs = Some (a', b)" "a = c # a'" by auto
    with Cons.IH show ?thesis by simp
  qed
qed

lemma cut_append: "cut sep s = Some (a, b) \<Longrightarrow> cut sep (s @ t) = Some (a, b @ t)"
proof (induction s arbitrary: a)
  case Nil
  then show ?case by (cases t) (auto split: if_splits)
next
  case (Cons c cs)
  show ?case
  proof (cases "prefix sep (c # cs)")
    case True
    then have p: "prefix sep (c # cs @ t)" by (metis append_Cons prefix_prefix)
    from True have "length sep \<le> length (c # cs)" by (rule prefix_length_le)
    then have "drop (length sep) ((c # cs) @ t) = drop (length sep) (c # cs) @ t"
      by (simp del: append_Cons)
    with True p Cons.prems show ?thesis by auto
  next
    case False
    with Cons.prems obtain a' where a': "cut sep cs = Some (a', b)" "a = c # a'" by auto
    from a'(1) have "cs = a' @ sep @ b" by (rule cut_decomp)
    then have "length sep \<le> length (c # cs)" by simp
    with False have "\<not> prefix sep ((c # cs) @ t)"
      unfolding prefix_append by auto
    then have "\<not> prefix sep (c # cs @ t)" by simp
    with a' Cons.IH show ?thesis by simp
  qed
qed

lemma cut_skip:
  "sep \<noteq> [] \<Longrightarrow> hd sep \<notin> set pre \<Longrightarrow>
   cut sep (pre @ s) = map_option (\<lambda>(a, b). (pre @ a, b)) (cut sep s)"
proof (induction pre)
  case Nil
  show ?case by (cases "cut sep s") auto
next
  case (Cons c pre)
  then have "\<not> prefix sep (c # pre @ s)"
    by (cases sep) auto
  with Cons show ?case by (cases "cut sep s") auto
qed


lemma split_js_hd: "sep \<noteq> [] \<Longrightarrow> split_js sep s ! 0 = first_piece sep s"
  by (cases "cut sep s") (auto simp: first_piece_def split_js.simps [of sep s])

lemma split_js_nonempty: "sep \<noteq> [] \<Longrightarrow> split_js sep s \<noteq> []"
  by (cases "cut sep s") (auto simp: split_js.simps [of sep s])

lemma split_js_many: "sep \<noteq> [] \<Longrightarrow> (1 < length (split_js sep s)) = (cut sep s \<noteq> None)"
proof (cases "cut sep s")
  case None
  assume "sep \<noteq> []"
  with None show ?thesis by (simp add: split_js.simps [of sep s])
next
  case (Some ab)
  assume ne: "sep \<noteq> []"
  obtain a b where "ab = (a, b)" by (cases ab)
  with Some ne have "split_js sep s = a # split_js sep b"
    by (simp add: split_js.simps [of sep s])
  moreover from ne have "split_js sep b \<noteq> []" by (rule split_js_nonempty)
  ultimately have "1 < length (split_js sep s)" by (cases "split_js sep b") simp_all
  with Some show ?thesis by simp
qed

lemma split_js_snd:
  "sep \<noteq> [] \<Longrightarrow> cut sep s = Some (a, b) \<Longrightarrow> split_js sep s ! 1 = first_piece sep b"
  using split_js_hd [of sep b] by (simp add: split_js.simps [of sep s])

lemma open_fence_includes:
  assumes "cut open_fence full = Some (a, b)"
  shows "includes_js full ''```json''" and "includes_js full ''```''"
proof -
  from assms have full: "full = a @ open_fence @ b" by (rule cut_decomp)
  have "full = a @ ''```json'' @ (''\<newline>'' @ b)" unfolding full by simp
  then show "includes_js full ''```json''" unfolding includes_js_def sublist_def by blast
  have "full = a @ ''```'' @ (''json\<newline>'' @ b)" unfolding full by simp
  then show "includes_js full ''```''" unfolding includes_js_def sublist_def by blast
qed

lemma fenced_body_cut:
  "fenced_body full =
     (case cut open_fence full of
        None \<Rightarrow> None
      | Some (a, b) \<Rightarrow> map_option fst (cut close_fence (first_piece open_fence b)))"
proof (cases "cut open_fence full")
  case None
  then have "\<not> 1 < length (split_js open_fence full)"
    using split_js_many [of open_fence full] by simp
  with None show ?thesis by (simp add: fenced_body_def Let_def)
next
  case (Some ab)
  obtain a b where ab: "ab = (a, b)" by (cases ab)
  with Some have c: "cut open_fence full = Some (a, b)" by simp
  note inc = open_fence_includes [OF c]
  have many: "1 < length (split_js open_fence full)"
    using c split_js_many [of open_fence full] by simp
  have snd: "split_js open_fence full ! 1 = first_piece open_fence b"
    using c by (intro split_js_snd) simp_all
  show ?thesis
  proof (cases "cut close_fence (first_piece open_fence b)")
    case None
    then have "\<not> 1 < length (split_js close_fence (first_piece open_fence b))"
      using split_js_many [of close_fence "first_piece open_fence b"] by simp
    with None c inc many snd show ?thesis by (simp add: fenced_body_def Let_def)
  next
    case (Some bd)
    then have m: "1 < length (split_js close_fence (first_piece open_fence b))"
      using split_js_many [of close_fence "first_piece open_fence b"] by simp
    have "split_js close_fence (first_piece open_fence b) ! 0 = first_piece close_fence (first_piece open_fence b)"
      by (intro split_js_hd) simp
    with Some have "split_js close_fence (first_piece open_fence b) ! 0 = fst bd"
      by (cases bd) (simp add: first_piece_def)
    with Some c inc many snd m show ?thesis by (simp add: fenced_body_def Let_def)
  qed
qed

lemma first_piece_grows:
  assumes "cut cl (first_piece op b) = Some (body, r)"
  shows "cut cl (first_piece op (b @ t)) = None \<or>
         (\<exists>r'. cut cl (first_piece op (b @ t)) = Some (body, r'))"
proof (cases "cut op b")
  case (Some ar)
  obtain a' r0 where "ar = (a', r0)" by (cases ar)
  with Some have "cut op (b @ t) = Some (a', r0 @ t)" by (simp add: cut_append)
  with Some \<open>ar = (a', r0)\<close> assms show ?thesis by (simp add: first_piece_def)
next
  case None
  with assms have cb: "cut cl b = Some (body, r)" by (simp add: first_piece_def)
  show ?thesis
  proof (cases "cut op (b @ t)")
    case None
    with cb show ?thesis by (simp add: first_piece_def cut_append)
  next
    case (Some ar)
    obtain a' r1 where ar: "ar = (a', r1)" by (cases ar)
    with Some have fp: "first_piece op (b @ t) = a'" by (simp add: first_piece_def)
    from Some ar have "b @ t = a' @ op @ r1" by (auto dest: cut_decomp)
    then have "prefix a' b \<or> prefix b a'"
      by (metis prefixI prefix_same_cases)
    then show ?thesis
    proof
      assume "prefix b a'"
      then obtain y where "a' = b @ y" by (auto simp: prefix_def)
      with cb have "cut cl a' = Some (body, r @ y)" by (simp add: cut_append)
      with fp show ?thesis by simp
    next
      assume "prefix a' b"
      then obtain y where y: "b = a' @ y" by (auto simp: prefix_def)
      show ?thesis
      proof (cases "cut cl a'")
        case None
        with fp show ?thesis by simp
      next
        case (Some br)
        obtain body' r' where "br = (body', r')" by (cases br)
        with Some have "cut cl (a' @ y) = Some (body', r' @ y)" by (simp add: cut_append)
        with cb y have "body' = body" by simp
        with Some \<open>br = (body', r')\<close> fp show ?thesis by simp
      qed
    qed
  qed
qed

lemma fenced_body_grows:
  assumes "fenced_body full = Some body"
  shows "fenced_body (full @ t) = None \<or> fenced_body (full @ t) = Some body"
proof -
  from assms obtain a b r where c: "cut open_fence full = Some (a, b)"
    and d: "cut close_fence (first_piece open_fence b) = Some (body, r)"
    by (auto simp: fenced_body_cut split: option.splits)
  from c have c': "cut open_fence (full @ t) = Some (a, b @ t)" by (rule cut_append)
  from first_piece_grows [OF d, of t] c' show ?thesis
    by (auto simp: fenced_body_cut)
qed


lemma fenced_body_decomp:
  assumes "fenced_body full = Some body"
  shows "\<exists>pre post. full = pre @ open_fence @ body @ close_fence @ post"
proof -
  from assms obtain a b r where c: "cut open_fence full = Some (a, b)"
    and d: "cut close_fence (first_piece open_fence b) = Some (body, r)"
    by (auto simp: fenced_body_cut split: option.splits)
  from c have full: "full = a @ open_fence @ b" by (rule cut_decomp)
  from d have fp: "first_piece open_fence b = body @ close_fence @ r" by (rule cut_decomp)
  have "\<exists>rest. b = first_piece open_fence b @ rest"
    by (cases "cut open_fence b") (auto simp: first_piece_def dest: cut_decomp)
  then obtain rest where "b = (body @ close_fence @ r) @ rest" using fp by metis
  with full have "full = a @ open_fence @ body @ close_fence @ (r @ rest)" by simp
  then show ?thesis by blast
qed

section \<open>Rounds in which nothing is dispatched\<close>

text \<open>
  A round in which no text between the fences is a tool call runs to the end of the
  stream and prints nothing but parse failures.
\<close>

lemma try_block_no_call:
  assumes "\<not> tool_call_json parse body"
  shows "\<exists>evs. try_block parse call body st = Continue (st\<lparr>console := console st @ evs\<rparr>) \<and>
           list_all is_parse_failure evs"
proof (cases "parse body")
  case None
  then have "try_block parse call body st =
      Continue (st\<lparr>console := console st @ [ParseFailure SyntaxError]\<rparr>)"
    by (simp add: try_block_def caught_def)
  then have "try_block parse call body st =
      Continue (st\<lparr>console := console st @ [ParseFailure SyntaxError]\<rparr>) \<and>
      list_all is_parse_failure [ParseFailure SyntaxError]" by simp
  then show ?thesis by (rule exI)
next
  case (Some jc)
  show ?thesis
  proof (cases "member (Some jc) ''name''")
    case (Inl e)
    with Some have "try_block parse call body st =
        Continue (st\<lparr>console := console st @ [ParseFailure e]\<rparr>)"
      by (simp add: try_block_def caught_def)
    then have "try_block parse call body st =
        Continue (st\<lparr>console := console st @ [ParseFailure e]\<rparr>) \<and>
        list_all is_parse_failure [ParseFailure e]" by simp
    then show ?thesis by (rule exI)
  next
    case (Inr nm)
    have quiet: "try_block parse call body st = Continue st \<Longrightarrow> ?thesis"
    proof -
      assume "try_block parse call body st = Continue st"
      then have "try_block parse call body st = Continue (st\<lparr>console := console st @ []\<rparr>) \<and>
          list_all is_parse_failure []"
        by simp
      then show ?thesis by (rule exI)
    qed
    show ?thesis
    proof (cases "truthy nm")
      case False
      with Some Inr have "try_block parse call body st = Continue st"
        by (cases nm) (simp_all add: try_block_def)
      then show ?thesis by (rule quiet)
    next
      case True
      then obtain n where n: "nm = Some n" by (cases nm) simp_all
      show ?thesis
      proof (cases "member (Some jc) ''arguments''")
        case (Inl e)
        with Some Inr n True have "try_block parse call body st =
            Continue (st\<lparr>console := console st @ [ParseFailure e]\<rparr>)"
          by (simp add: try_block_def caught_def)
        then have "try_block parse call body st =
            Continue (st\<lparr>console := console st @ [ParseFailure e]\<rparr>) \<and>
            list_all is_parse_failure [ParseFailure e]" by simp
        then show ?thesis by (rule exI)
      next
        case (Inr args)
        with assms Some \<open>member (Some jc) ''name'' = Inr nm\<close> True
        have "\<not> truthy args" by (simp add: tool_call_json_def)
        with Some \<open>member (Some jc) ''name'' = Inr nm\<close> n True Inr
        have "try_block parse call body st = Continue st"
          by (cases args) (simp_all add: try_block_def)
        then show ?thesis by (rule quiet)
      qed
    qed
  qed
qed

lemma scan_inert:
  assumes "\<forall>q body. prefix q (full @ concat ts) \<longrightarrow> fenced_body q = Some body \<longrightarrow>
             \<not> tool_call_json parse body"
  shows "\<exists>evs. scan parse call full ts st =
           Done (full @ concat ts) (st\<lparr>console := console st @ evs\<rparr>) \<and>
           list_all is_parse_failure evs"
  using assms
proof (induction ts arbitrary: full st)
  case Nil
  have "scan parse call full [] st = Done (full @ concat []) (st\<lparr>console := console st @ []\<rparr>) \<and>
      list_all is_parse_failure []"
    by simp
  then show ?case by (rule exI)
next
  case (Cons t ts)
  have whole: "(full @ t) @ concat ts = full @ concat (t # ts)" by simp
  have later: "\<forall>q body. prefix q ((full @ t) @ concat ts) \<longrightarrow> fenced_body q = Some body \<longrightarrow>
      \<not> tool_call_json parse body"
    using Cons.prems unfolding whole by blast
  have ih: "\<exists>evs. scan parse call (full @ t) ts s =
           Done ((full @ t) @ concat ts) (s\<lparr>console := console s @ evs\<rparr>) \<and>
           list_all is_parse_failure evs" for s
    using later by (rule Cons.IH)
  show ?case
  proof (cases "fenced_body (full @ t)")
    case None
    from ih [of st] obtain evs where
      "scan parse call (full @ t) ts st = Done ((full @ t) @ concat ts) (st\<lparr>console := console st @ evs\<rparr>)"
      "list_all is_parse_failure evs" by blast
    with None have "scan parse call full (t # ts) st =
        Done (full @ concat (t # ts)) (st\<lparr>console := console st @ evs\<rparr>) \<and>
        list_all is_parse_failure evs" by simp
    then show ?thesis by (rule exI)
  next
    case (Some body)
    have "prefix (full @ t) (full @ concat (t # ts))" by simp
    with Cons.prems Some have "\<not> tool_call_json parse body" by blast
    from try_block_no_call [OF this, of call st] obtain e1 where
      e1: "try_block parse call body st = Continue (st\<lparr>console := console st @ e1\<rparr>)"
          "list_all is_parse_failure e1" by blast
    from ih [of "st\<lparr>console := console st @ e1\<rparr>"] obtain e2 where
      e2: "scan parse call (full @ t) ts (st\<lparr>console := console st @ e1\<rparr>) =
            Done ((full @ t) @ concat ts) (st\<lparr>console := console st @ e1 @ e2\<rparr>)"
          "list_all is_parse_failure e2" by auto
    from Some e1 e2 have "scan parse call full (t # ts) st =
        Done (full @ concat (t # ts)) (st\<lparr>console := console st @ (e1 @ e2)\<rparr>) \<and>
        list_all is_parse_failure (e1 @ e2)" by simp
    then show ?thesis by (rule exI)
  qed
qed

lemma drop_to_rest: "drop (length pre + length op + length body) (pre @ op @ body @ rest) = rest"
  by simp

lemma drop_to_body: "drop (length pre + length op) (pre @ op @ rest) = rest"
  by simp

lemma index_of_open: "length pre \<in> set [0..<Suc (length (pre @ rest))]"
  by simp

lemma index_of_close:
  "length pre + length op + length body \<in> set [0..<Suc (length (pre @ op @ body @ rest))]"
  by simp

lemma contains_tool_blockI:
  assumes "tool_call_json parse body"
  shows "contains_tool_block parse (pre @ open_fence @ body @ close_fence @ post)"
proof -
  let ?text = "pre @ open_fence @ body @ close_fence @ post"
  let ?i = "length pre"
  let ?j = "length pre + length open_fence + length body"
  have d1: "drop ?i ?text = open_fence @ body @ close_fence @ post" by simp
  have d2: "drop ?j ?text = close_fence @ post" by (rule drop_to_rest)
  have d3: "drop (?i + length open_fence) ?text = body @ close_fence @ post"
    by (rule drop_to_body)
  have "prefix open_fence (drop ?i ?text)" unfolding d1 by simp
  moreover have "prefix close_fence (drop ?j ?text)" unfolding d2 by simp
  moreover have "take (?j - (?i + length open_fence)) (drop (?i + length open_fence) ?text) = body"
    unfolding d3 by simp
  ultimately have "block_at parse ?text ?i ?j"
    unfolding block_at_def using assms by simp
  moreover have "?i \<in> set [0..<Suc (length ?text)]"
    by (rule index_of_open)
  moreover have "?j \<in> set [0..<Suc (length ?text)]"
    by (rule index_of_close)
  ultimately show ?thesis unfolding contains_tool_block_def list_ex_iff by blast
qed

lemma no_block_inert:
  assumes "\<not> contains_tool_block parse text" "prefix q text" "fenced_body q = Some body"
  shows "\<not> tool_call_json parse body"
proof
  assume tc: "tool_call_json parse body"
  from assms(3) obtain pre post where "q = pre @ open_fence @ body @ close_fence @ post"
    using fenced_body_decomp by blast
  moreover from assms(2) obtain r where "text = q @ r" by (auto simp: prefix_def)
  ultimately have "text = pre @ open_fence @ body @ close_fence @ (post @ r)" by simp
  with contains_tool_blockI [OF tc, of pre "post @ r"] assms(1) show False by simp
qed

section \<open>The end of a round\<close>

text \<open>
  What \<open>main\<close> does with the text a round returns, and what a parse failure means for
  the rest of the round.
\<close>

lemma trim_blank: "list_all is_space s \<Longrightarrow> trim s = []"
proof -
  assume "list_all is_space s"
  then have dw: "dropWhile is_space s = []" by (induction s) simp_all
  show ?thesis unfolding trim_def dw by simp
qed

lemma trim_empty_iff: "trim s = [] \<longleftrightarrow> list_all is_space s"
proof
  assume t: "trim s = []"
  show "list_all is_space s"
  proof (rule ccontr)
    assume "\<not> list_all is_space s"
    then have ne: "dropWhile is_space s \<noteq> []" by (induction s) auto
    then have "\<not> is_space (hd (dropWhile is_space s))" by (rule hd_dropWhile)
    moreover from ne have "hd (dropWhile is_space s) \<in> set (rev (dropWhile is_space s))" by simp
    moreover from t have "\<forall>x\<in>set (rev (dropWhile is_space s)). is_space x"
      unfolding trim_def by (simp only: rev_is_Nil_conv dropWhile_eq_Nil_conv)
    ultimately show False by blast
  qed
next
  assume "list_all is_space s"
  then show "trim s = []" by (rule trim_blank)
qed

text \<open>
  C10. If the text a round ends with is empty or consists of white space only, no assistant
  turn is appended: the handler of the input line ends in the very state in which
  \<open>getStreamedResponse\<close> returned.
\<close>

theorem blank_answer_not_recorded:
  assumes "getStreamedResponse parse call chat
             (st\<lparr>history := history st @ [\<lparr>role = ''user'', content = input\<rparr>]\<rparr>) =
           Some (finalContent, st')"
    and "list_all is_space finalContent"
  shows "on_line parse call chat input st = Some st'"
  using assms by (simp add: on_line_def trim_blank)

theorem blank_answer_not_recorded_witness:
  "on_line example_parse await_callTool (say [''  '', ''\<newline>'']) ''hi''
     (agent_init (client_init, [])) =
   Some \<lparr>history = [\<lparr>role = ''user'', content = ''hi''\<rparr>], console = [],
         world = (client_init, [])\<rparr>"
proof -
  have returned: "getStreamedResponse example_parse await_callTool (say [''  '', ''\<newline>''])
      ((agent_init (client_init, []))\<lparr>history := history (agent_init (client_init, [])) @
         [\<lparr>role = ''user'', content = ''hi''\<rparr>]\<rparr>) =
    Some (''  \<newline>'', \<lparr>history = [\<lparr>role = ''user'', content = ''hi''\<rparr>], console = [],
                    world = (client_init, [])\<rparr>)"
    by (subst getStreamedResponse.simps) code_simp
  have blank: "list_all is_space ''  \<newline>''"
    by code_simp
  from blank_answer_not_recorded
    [where parse = example_parse and call = await_callTool
       and chat = "say [''  '', ''\<newline>'']" and st = "agent_init (client_init, [])"
       and input = "''hi''", OF returned blank]
  show ?thesis .
qed

lemma round_without_block:
  assumes "\<not> contains_tool_block parse (concat (chat (history st)))"
  shows "\<exists>evs. getStreamedResponse parse call chat st =
           Some (concat (chat (history st)), st\<lparr>console := console st @ evs\<rparr>) \<and>
           list_all is_parse_failure evs"
proof -
  have "\<forall>q body. prefix q ([] @ concat (chat (history st))) \<longrightarrow> fenced_body q = Some body \<longrightarrow>
      \<not> tool_call_json parse body"
    using assms no_block_inert by auto
  from scan_inert [OF this, of call st] obtain evs where
    "scan parse call [] (chat (history st)) st =
       Done (concat (chat (history st))) (st\<lparr>console := console st @ evs\<rparr>)"
    "list_all is_parse_failure evs" by auto
  then have "getStreamedResponse parse call chat st =
           Some (concat (chat (history st)), st\<lparr>console := console st @ evs\<rparr>) \<and>
           list_all is_parse_failure evs"
    by (subst getStreamedResponse.simps) simp
  then show ?thesis by (rule exI)
qed

text \<open>
  C7, as amended. If the text the model streams contains no fenced tool-call block, the
  round ends at the end of the stream with the full text, nothing but parse failures is
  printed and the peer is left alone; the full text is appended as the assistant's turn
  unless it is empty or white space only, in which case nothing is appended.
\<close>

theorem plain_text_round:
  assumes "\<not> contains_tool_block parse
             (concat (chat (history st @ [\<lparr>role = ''user'', content = input\<rparr>])))"
  shows "\<exists>evs. on_line parse call chat input st =
           Some (st\<lparr>history := history st @ \<lparr>role = ''user'', content = input\<rparr> #
                   (if trim (concat (chat (history st @ [\<lparr>role = ''user'', content = input\<rparr>]))) \<noteq> []
                    then [\<lparr>role = ''assistant'',
                           content = concat (chat (history st @ [\<lparr>role = ''user'', content = input\<rparr>]))\<rparr>]
                    else []),
                  console := console st @ evs\<rparr>) \<and>
           list_all is_parse_failure evs"
proof -
  let ?st1 = "st\<lparr>history := history st @ [\<lparr>role = ''user'', content = input\<rparr>]\<rparr>"
  from assms have "\<not> contains_tool_block parse (concat (chat (history ?st1)))" by simp
  from round_without_block [of parse chat ?st1 call] this obtain evs where
    r: "getStreamedResponse parse call chat ?st1 =
       Some (concat (chat (history ?st1)), ?st1\<lparr>console := console ?st1 @ evs\<rparr>)"
    and f: "list_all is_parse_failure evs" by blast
  have "on_line parse call chat input st =
           Some (st\<lparr>history := history st @ \<lparr>role = ''user'', content = input\<rparr> #
                   (if trim (concat (chat (history st @ [\<lparr>role = ''user'', content = input\<rparr>]))) \<noteq> []
                    then [\<lparr>role = ''assistant'',
                           content = concat (chat (history st @ [\<lparr>role = ''user'', content = input\<rparr>]))\<rparr>]
                    else []),
                  console := console st @ evs\<rparr>)"
    unfolding on_line_def r by simp
  with f show ?thesis by blast
qed

theorem plain_text_round_witness:
  "map_option history
     (on_line example_parse await_callTool (say [''Hello'', '' world'']) ''hi''
        (agent_init (client_init, []))) =
   Some [\<lparr>role = ''user'', content = ''hi''\<rparr>,
         \<lparr>role = ''assistant'', content = ''Hello world''\<rparr>]"
proof -
  have plain: "\<not> contains_tool_block example_parse
      (concat (say [''Hello'', '' world'']
         (history (agent_init (client_init, [])) @ [\<lparr>role = ''user'', content = ''hi''\<rparr>])))"
    by code_simp
  have shown: "trim ''Hello world'' \<noteq> []"
    by code_simp
  note round = plain_text_round
    [where parse = example_parse and chat = "say [''Hello'', '' world'']"
       and st = "agent_init (client_init, [])" and input = "''hi''"
       and call = await_callTool, OF plain]
  from round shown show ?thesis by (auto simp add: say_def agent_init_def)
qed

text \<open>
  C7 as it is stated fails on a stream of blanks: the stream contains no fenced block, the
  round ends with the text of two spaces, and the history holds the user's turn only.
\<close>

theorem plain_text_round_counterexample:
  "\<not> contains_tool_block example_parse (concat (say [''  ''] [\<lparr>role = ''user'', content = ''hi''\<rparr>])) \<and>
   on_line example_parse await_callTool (say [''  '']) ''hi'' (agent_init (client_init, [])) =
   Some \<lparr>history = [\<lparr>role = ''user'', content = ''hi''\<rparr>], console = [],
         world = (client_init, [])\<rparr>"
proof
  show "\<not> contains_tool_block example_parse
      (concat (say [''  ''] [\<lparr>role = ''user'', content = ''hi''\<rparr>]))"
    by code_simp
  show "on_line example_parse await_callTool (say [''  '']) ''hi'' (agent_init (client_init, [])) =
    Some \<lparr>history = [\<lparr>role = ''user'', content = ''hi''\<rparr>], console = [],
          world = (client_init, [])\<rparr>"
    unfolding on_line_def by (subst getStreamedResponse.simps) code_simp
qed

lemma scan_failing:
  assumes "fenced_body p = Some body" "parse body = None" "prefix p full"
  shows "\<exists>n. scan parse call full ts st =
           Done (full @ concat ts)
             (st\<lparr>console := console st @ replicate n (ParseFailure SyntaxError)\<rparr>)"
  using assms(3)
proof (induction ts arbitrary: full st)
  case Nil
  have "scan parse call full [] st =
      Done (full @ concat []) (st\<lparr>console := console st @ replicate 0 (ParseFailure SyntaxError)\<rparr>)"
    by simp
  then show ?case by (rule exI)
next
  case (Cons t ts)
  from Cons.prems have ext: "prefix p (full @ t)" by (simp add: prefix_prefix)
  then obtain r where "full @ t = p @ r" by (auto simp: prefix_def)
  with fenced_body_grows [OF assms(1), of r]
  have cases: "fenced_body (full @ t) = None \<or> fenced_body (full @ t) = Some body" by simp
  have ih: "\<exists>n. scan parse call (full @ t) ts s =
           Done ((full @ t) @ concat ts)
             (s\<lparr>console := console s @ replicate n (ParseFailure SyntaxError)\<rparr>)" for s
    using ext by (rule Cons.IH)
  from cases show ?case
  proof
    assume none: "fenced_body (full @ t) = None"
    from ih [of st] obtain n where
      "scan parse call (full @ t) ts st = Done ((full @ t) @ concat ts)
             (st\<lparr>console := console st @ replicate n (ParseFailure SyntaxError)\<rparr>)" by blast
    with none have "scan parse call full (t # ts) st = Done (full @ concat (t # ts))
             (st\<lparr>console := console st @ replicate n (ParseFailure SyntaxError)\<rparr>)" by simp
    then show ?thesis by (rule exI)
  next
    assume some: "fenced_body (full @ t) = Some body"
    let ?s = "st\<lparr>console := console st @ [ParseFailure SyntaxError]\<rparr>"
    have tb: "try_block parse call body st = Continue ?s"
      using assms(2) by (simp add: try_block_def caught_def)
    from ih [of ?s] obtain n where
      "scan parse call (full @ t) ts ?s = Done ((full @ t) @ concat ts)
             (?s\<lparr>console := console ?s @ replicate n (ParseFailure SyntaxError)\<rparr>)" by blast
    with some tb have "scan parse call full (t # ts) st = Done (full @ concat (t # ts))
             (st\<lparr>console := console st @ replicate (Suc n) (ParseFailure SyntaxError)\<rparr>)"
      by simp
    then show ?thesis by (rule exI)
  qed
qed

text \<open>
  C5, as amended. When the text between the first pair of fences fails to parse, the
  failure is printed and the loop goes on to the end of the stream. On every later token
  it is the same first block that is parsed again, or nothing: no later block is looked
  at, nothing is dispatched, and the round ends with the full text.
\<close>

theorem parse_failure_ends_detection:
  assumes "fenced_body (full @ t) = Some body" and "parse body = None"
  shows "\<exists>n. scan parse call full (t # ts) st =
           Done (full @ t @ concat ts)
             (st\<lparr>console := console st @ replicate (Suc n) (ParseFailure SyntaxError)\<rparr>)"
proof -
  let ?s = "st\<lparr>console := console st @ [ParseFailure SyntaxError]\<rparr>"
  have tb: "try_block parse call body st = Continue ?s"
    using assms(2) by (simp add: try_block_def caught_def)
  have "prefix (full @ t) (full @ t)" by simp
  with assms scan_failing [where p = "full @ t" and parse = parse and body = body
      and full = "full @ t" and call = call and ts = ts and st = ?s] obtain n where
    "scan parse call (full @ t) ts ?s = Done ((full @ t) @ concat ts)
             (?s\<lparr>console := console ?s @ replicate n (ParseFailure SyntaxError)\<rparr>)" by blast
  with assms(1) tb have "scan parse call full (t # ts) st = Done (full @ t @ concat ts)
             (st\<lparr>console := console st @ replicate (Suc n) (ParseFailure SyntaxError)\<rparr>)"
    by simp
  then show ?thesis by (rule exI)
qed

theorem parse_failure_ends_detection_witness:
  "\<exists>n. scan example_parse await_callTool [] [''```json\<newline>bad\<newline>```'', ''\<newline>'' @ valid_block]
          (agent_init (client_init, [result_message 2 ok_result])) =
        Done ([] @ ''```json\<newline>bad\<newline>```'' @ concat [''\<newline>'' @ valid_block])
          ((agent_init (client_init, [result_message 2 ok_result]))
             \<lparr>console := console (agent_init (client_init, [result_message 2 ok_result])) @
                replicate (Suc n) (ParseFailure SyntaxError)\<rparr>)"
proof -
  have fence: "fenced_body ([] @ ''```json\<newline>bad\<newline>```'') = Some ''bad\<newline>''"
    by code_simp
  have bad: "example_parse ''bad\<newline>'' = None"
    by code_simp
  from parse_failure_ends_detection
    [where parse = example_parse and body = "''bad\<newline>''" and full = "[]"
       and t = "''```json\<newline>bad\<newline>```''", OF fence bad]
  show ?thesis .
qed

text \<open>
  C5 as it is stated fails on a stream with a malformed block followed by a valid one:
  the text contains a fenced tool-call block, the failure is printed twice, and the round
  ends without a dispatch, the peer's answer still waiting.
\<close>

theorem later_block_counterexample:
  "contains_tool_block example_parse (''```json\<newline>bad\<newline>```\<newline>'' @ valid_block) \<and>
   scan example_parse await_callTool [] [''```json\<newline>bad\<newline>```'', ''\<newline>'' @ valid_block]
     (agent_init (client_init, [result_message 2 ok_result])) =
   Done (''```json\<newline>bad\<newline>```\<newline>'' @ valid_block)
     \<lparr>history = [], console = [ParseFailure SyntaxError, ParseFailure SyntaxError],
      world = (client_init, [result_message 2 ok_result])\<rparr>"
proof
  show "contains_tool_block example_parse (''```json\<newline>bad\<newline>```\<newline>'' @ valid_block)"
    by code_simp
  show "scan example_parse await_callTool [] [''```json\<newline>bad\<newline>```'', ''\<newline>'' @ valid_block]
     (agent_init (client_init, [result_message 2 ok_result])) =
   Done (''```json\<newline>bad\<newline>```\<newline>'' @ valid_block)
     \<lparr>history = [], console = [ParseFailure SyntaxError, ParseFailure SyntaxError],
      world = (client_init, [result_message 2 ok_result])\<rparr>"
    by code_simp
qed

section \<open>Rounds in which a tool is called\<close>


lemma cut_of_prefix: "prefix sep s \<Longrightarrow> cut sep s = Some ([], drop (length sep) s)"
  by (cases s) simp_all

lemma cut_at_front: "cut sep (sep @ rest) = Some ([], rest)"
  using cut_of_prefix [of sep "sep @ rest"] by simp

lemma open_fence_found:
  assumes "CHR 0x60 \<notin> set pre"
  shows "cut open_fence (pre @ open_fence @ rest) = Some (pre, rest)"
proof -
  have "hd open_fence \<notin> set pre" using assms by simp
  then have "cut open_fence (pre @ open_fence @ rest) =
      map_option (\<lambda>(a, b). (pre @ a, b)) (cut open_fence (open_fence @ rest))"
    by (intro cut_skip) simp_all
  then show ?thesis unfolding cut_at_front by simp
qed


lemma plain_first_fence:
  assumes "CHR 0x60 \<notin> set pre"
  shows "cut open_fence (pre @ open_fence) = Some (pre, [])"
  using open_fence_found [OF assms, of "[]"] by simp











text \<open>
  When the call fails, the number of dispatches does depend on the partition: the loop
  parses the same block again at every later token. A peer that answers with an error is
  called once when block and tail arrive as one token, and twice when they arrive as two.
\<close>

lemma failed_call_counts:
  "printed (scan example_parse await_callTool [] [valid_block @ '' ok'']
     (agent_init (client_init, [error_message 2 ''boom'', error_message 2 ''boom'']))) =
     [ToolUsed ''x'' (JObject []), ParseFailure (McpError ''MCP Error: boom'')] \<and>
   printed (scan example_parse await_callTool [] [valid_block, '' ok'']
     (agent_init (client_init, [error_message 2 ''boom'', error_message 2 ''boom'']))) =
     [ToolUsed ''x'' (JObject []), ParseFailure (McpError ''MCP Error: boom''),
      ToolUsed ''x'' (JObject []), ParseFailure (McpError ''MCP Error: boom'')]"
  by code_simp










section \<open>Requests and responses\<close>

text \<open>
  Both slots of the transport always hold the closure of the latest \<open>sendMessage\<close>, so
  that is the only promise a response or an error can settle.
\<close>

lemma reply_settled: "reply_of r = Some v \<Longrightarrow> v \<noteq> Pending"
  by (auto simp: reply_of_def split: sum.splits if_splits)

lemma sendMessage_promises:
  "promises (snd (sendMessage c m None)) = promises c @ [(m, Pending)]"
  by (simp add: sendMessage_def Let_def)

lemma sendMessage_slots:
  "onmessage (snd (sendMessage c m None)) = Some (length (promises c))"
  "onerror (snd (sendMessage c m None)) = Some (length (promises c))"
  by (simp_all add: sendMessage_def Let_def)

lemma dispatch_all_promises:
  "promises (dispatch_all c reqs) = promises c @ map (\<lambda>m. (m, Pending)) reqs"
  unfolding dispatch_all_def
  by (induction reqs arbitrary: c) (simp_all add: sendMessage_promises)

lemma dispatch_all_snoc:
  "dispatch_all c (reqs @ [m]) = snd (sendMessage (dispatch_all c reqs) m None)"
  by (simp add: dispatch_all_def)

lemma dispatch_all_slots:
  assumes "reqs \<noteq> []"
  shows "onmessage (dispatch_all c reqs) = Some (length (promises c) + length reqs - 1)"
    and "onerror (dispatch_all c reqs) = Some (length (promises c) + length reqs - 1)"
proof -
  from assms obtain ms m where reqs: "reqs = ms @ [m]" by (metis rev_exhaust)
  show "onmessage (dispatch_all c reqs) = Some (length (promises c) + length reqs - 1)"
    unfolding reqs dispatch_all_snoc by (simp add: sendMessage_slots dispatch_all_promises)
  show "onerror (dispatch_all c reqs) = Some (length (promises c) + length reqs - 1)"
    unfolding reqs dispatch_all_snoc by (simp add: sendMessage_slots dispatch_all_promises)
qed

lemma settle_with_states:
  assumes "p < length (promises c)" "snd (promises c ! p) = Pending"
  shows "map snd (promises (settle_with p v c)) = (map snd (promises c))[p := v]"
  using assms by (simp add: settle_with_def map_update)

lemma settle_with_settled:
  "p < length (promises c) \<Longrightarrow> snd (promises c ! p) \<noteq> Pending \<Longrightarrow> settle_with p v c = c"
  by (simp add: settle_with_def)

lemma deliver_all_settled:
  assumes "onmessage c = Some p" "p < length (promises c)" "snd (promises c ! p) \<noteq> Pending"
  shows "deliver_all c rs = c"
proof -
  have "on_message c r = c" for r
    using assms by (simp add: on_message_def settle_with_settled split: option.splits)
  then show ?thesis unfolding deliver_all_def by (induction rs) simp_all
qed

lemma on_message_latest:
  assumes "onmessage c = Some p" "p < length (promises c)" "snd (promises c ! p) = Pending"
    and "reply_of r = Some v"
  shows "on_message c r = settle_with p v c"
  using assms by (simp add: on_message_def)

text \<open>
  C1, as amended. Of the requests dispatched before any answer arrives, only the one
  dispatched last is ever settled: the first response to arrive settles it, whatever
  correlation id that response carries; the earlier requests stay pending and the later
  responses change nothing. A request that is alone outstanding is thus settled by the
  first response that arrives.
\<close>

theorem latest_request_takes_first_response:
  assumes "reqs \<noteq> []" and "reply_of r = Some v"
  shows "map snd (promises (deliver_all (dispatch_all c reqs) (r # rs))) =
         map snd (promises c) @ replicate (length reqs - 1) Pending @ [v]"
proof -
  let ?d = "dispatch_all c reqs"
  let ?p = "length (promises c) + length reqs - 1"
  from assms(1) obtain ms m where reqs: "reqs = ms @ [m]" by (metis rev_exhaust)
  have slot: "onmessage ?d = Some ?p" using assms(1) by (rule dispatch_all_slots)
  have proms: "promises ?d = promises c @ map (\<lambda>m. (m, Pending)) reqs"
    by (rule dispatch_all_promises)
  have index: "?p = length (promises c @ map (\<lambda>m. (m, Pending)) ms)" unfolding reqs by simp
  have range: "?p < length (promises ?d)" unfolding proms using assms(1) by (cases reqs) simp_all
  have "promises ?d = (promises c @ map (\<lambda>m. (m, Pending)) ms) @ [(m, Pending)]"
    using proms unfolding reqs by simp
  then have at: "promises ?d ! ?p = (m, Pending)" unfolding index by (metis nth_append_length)
  then have pending: "snd (promises ?d ! ?p) = Pending" by simp
  have first: "on_message ?d r = settle_with ?p v ?d"
    using slot range pending assms(2) by (rule on_message_latest)
  have states: "map snd (promises (settle_with ?p v ?d)) = (map snd (promises ?d))[?p := v]"
    using range pending by (rule settle_with_states)
  have "map snd (promises ?d) = (map snd (promises c) @ replicate (length ms) Pending) @ [Pending]"
    using proms unfolding reqs by (simp add: map_replicate_const comp_def)
  moreover have "?p = length (map snd (promises c) @ replicate (length ms) Pending)"
    unfolding reqs by simp
  ultimately have upd: "(map snd (promises ?d))[?p := v] =
      (map snd (promises c) @ replicate (length ms) Pending) @ [v]"
    by (metis list_update_length)
  let ?e = "settle_with ?p v ?d"
  have e_slot: "onmessage ?e = Some ?p" using slot by (simp add: settle_with_def)
  have e_len: "?p < length (promises ?e)" using range by (simp add: settle_with_def)
  have "snd (promises ?e ! ?p) = v"
    using range pending by (simp add: settle_with_def)
  with reply_settled [OF assms(2)] have e_done: "snd (promises ?e ! ?p) \<noteq> Pending" by simp
  have rest: "deliver_all ?e rs = ?e" using e_slot e_len e_done by (rule deliver_all_settled)
  have "deliver_all ?d (r # rs) = deliver_all (on_message ?d r) rs" by (simp add: deliver_all_def)
  then have fin: "deliver_all ?d (r # rs) = ?e" unfolding first rest .
  have "map snd (promises (deliver_all ?d (r # rs))) = map snd (promises ?e)"
    by (simp only: fin)
  also have "\<dots> = (map snd (promises ?d))[?p := v]" by (rule states)
  also have "\<dots> = (map snd (promises c) @ replicate (length ms) Pending) @ [v]" by (rule upd)
  also have "\<dots> = map snd (promises c) @ replicate (length reqs - 1) Pending @ [v]"
    unfolding reqs by simp
  finally show ?thesis .
qed

theorem latest_request_takes_first_response_witness:
  "map snd (promises (deliver_all
       (dispatch_all client_init [listTools_message, callTool_message (JString ''x'') (JObject [])])
       [result_message 1 (JObject [(''tools'', JArray [])]), result_message 2 ok_result])) =
   map snd (promises client_init) @
     replicate (length [listTools_message, callTool_message (JString ''x'') (JObject [])] - 1) Pending @
     [Fulfilled (Some (JObject [(''tools'', JArray [])]))]"
proof -
  have some: "[listTools_message, callTool_message (JString ''x'') (JObject [])] \<noteq> []"
    by simp
  have reply: "reply_of (result_message 1 (JObject [(''tools'', JArray [])])) =
      Some (Fulfilled (Some (JObject [(''tools'', JArray [])])))"
    by code_simp
  from latest_request_takes_first_response [OF some reply] show ?thesis .
qed

text \<open>
  C1 as it is stated fails for a \<open>tools/list\<close> and a \<open>tools/call\<close> request in flight
  together, answered in the order in which they were sent: the response with id 1 settles
  the \<open>tools/call\<close> request, and the \<open>tools/list\<close> request is never settled.
\<close>

theorem demultiplexing_counterexample:
  "\<not> demultiplexed [listTools_message, callTool_message (JString ''x'') (JObject [])]
       [result_message 1 (JObject [(''tools'', JArray [])]), result_message 2 ok_result]"
  by code_simp

lemma outstanding_ids_sendMessage:
  "outstanding_ids (snd (sendMessage c m None)) = outstanding_ids c @ [member (Some m) ''id'']"
  by (simp add: outstanding_ids_def sendMessage_promises)

lemma outstanding_ids_settled:
  assumes "p < length (promises c)" "snd (promises c ! p) = Pending" "v \<noteq> Pending"
  shows "outstanding_ids (settle_with p v c) =
         outstanding_ids (c\<lparr>promises := take p (promises c) @ drop (Suc p) (promises c)\<rparr>)"
proof -
  have "promises (settle_with p v c) =
      take p (promises c) @ (fst (promises c ! p), v) # drop (Suc p) (promises c)"
    using assms(1,2) by (simp add: settle_with_def upd_conv_take_nth_drop)
  with assms(3) show ?thesis by (simp add: outstanding_ids_def)
qed

text \<open>
  C2, as amended. Every \<open>listTools\<close> request carries the correlation id 1 and every
  \<open>callTool\<close> request the id 2, whatever is outstanding: the ids of two requests in flight
  together differ when one is a \<open>listTools\<close> and the other a \<open>callTool\<close> request, and
  coincide when both are of the same kind. A request leaves the outstanding ones when a
  response settles it.
\<close>

theorem fixed_correlation_ids:
  assumes "onmessage c = Some p" and "p < length (promises c)"
    and "snd (promises c ! p) = Pending" and "reply_of r = Some v"
  shows "outstanding_ids (snd (listTools c None)) = outstanding_ids c @ [Inr (Some (JNumber 1))] \<and>
         outstanding_ids (snd (callTool c name args None)) =
           outstanding_ids c @ [Inr (Some (JNumber 2))] \<and>
         outstanding_ids (on_message c r) =
           outstanding_ids (c\<lparr>promises := take p (promises c) @ drop (Suc p) (promises c)\<rparr>)"
proof (intro conjI)
  show "outstanding_ids (snd (listTools c None)) = outstanding_ids c @ [Inr (Some (JNumber 1))]"
    by (simp add: listTools_def outstanding_ids_sendMessage listTools_message_def)
  show "outstanding_ids (snd (callTool c name args None)) =
      outstanding_ids c @ [Inr (Some (JNumber 2))]"
    by (simp add: callTool_def outstanding_ids_sendMessage callTool_message_def)
  have "on_message c r = settle_with p v c" using assms by (rule on_message_latest)
  with outstanding_ids_settled [OF assms(2,3) reply_settled [OF assms(4)]]
  show "outstanding_ids (on_message c r) =
      outstanding_ids (c\<lparr>promises := take p (promises c) @ drop (Suc p) (promises c)\<rparr>)"
    by simp
qed

theorem fixed_correlation_ids_witness:
  "outstanding_ids (snd (listTools (snd (callTool client_init (JString ''x'') (JObject []) None)) None)) =
     [Inr (Some (JNumber 2)), Inr (Some (JNumber 1))] \<and>
   outstanding_ids (snd (callTool (snd (callTool client_init (JString ''x'') (JObject []) None))
       (JString ''y'') (JObject []) None)) =
     [Inr (Some (JNumber 2)), Inr (Some (JNumber 2))] \<and>
   outstanding_ids (on_message (snd (callTool client_init (JString ''x'') (JObject []) None))
       (result_message 2 ok_result)) = []"
proof -
  let ?c = "snd (callTool client_init (JString ''x'') (JObject []) None)"
  have slot: "onmessage ?c = Some 0" by code_simp
  have range: "0 < length (promises ?c)" by code_simp
  have pending: "snd (promises ?c ! 0) = Pending" by code_simp
  have reply: "reply_of (result_message 2 ok_result) = Some (Fulfilled (Some ok_result))"
    by code_simp
  have before: "outstanding_ids ?c = [Inr (Some (JNumber 2))]" by code_simp
  have after: "outstanding_ids (?c\<lparr>promises := take 0 (promises ?c) @ drop (Suc 0) (promises ?c)\<rparr>) = []"
    by code_simp
  from fixed_correlation_ids [OF slot range pending reply, of "JString ''y''" "JObject []"]
    before after
  show ?thesis by simp
qed

text \<open>
  C2 as it is stated fails for two \<open>callTool\<close> requests in flight together: both carry
  the id 2.
\<close>

theorem shared_id_counterexample:
  "\<not> distinct (outstanding_ids
       (snd (callTool (snd (callTool client_init (JString ''x'') (JObject []) None))
          (JString ''y'') (JObject []) None)))"
  by code_simp

lemma happen_orphan:
  assumes "p < length (promises c)" "onmessage c \<noteq> Some p" "onerror c \<noteq> Some p"
  shows "p < length (promises (happen c h)) \<and> onmessage (happen c h) \<noteq> Some p \<and>
         onerror (happen c h) \<noteq> Some p \<and> promises (happen c h) ! p = promises c ! p"
proof (cases h)
  case (Request m failure)
  with assms show ?thesis
    by (cases failure) (auto simp: sendMessage_def Let_def settle_with_def nth_append)
next
  case (Response r)
  with assms show ?thesis
    by (auto simp: on_message_def settle_with_def split: option.splits)
next
  case (Failure e)
  with assms show ?thesis
    by (auto simp: on_error_def settle_with_def split: option.splits)
next
  case Stop
  with assms show ?thesis by (simp add: stop_def)
qed

lemma run_orphan:
  assumes "p < length (promises c)" "onmessage c \<noteq> Some p" "onerror c \<noteq> Some p"
  shows "p < length (promises (run c hs)) \<and> promises (run c hs) ! p = promises c ! p"
  using assms unfolding run_def
proof (induction hs arbitrary: c)
  case Nil
  then show ?case by simp
next
  case (Cons h hs)
  from happen_orphan [OF Cons.prems, of h] Cons.IH [of "happen c h"]
  show ?case by simp
qed

text \<open>
  C3, as amended. \<open>stop\<close> signals the child process and settles nothing: every request
  outstanding before it is outstanding after it. A request whose closure is in neither
  slot of the transport, because a later \<open>sendMessage\<close> has overwritten both, is never
  settled, whatever happens after \<open>stop\<close>: responses, errors the transport reports,
  further requests.
\<close>

theorem stop_settles_nothing:
  assumes "p < length (promises c)" and "onmessage c \<noteq> Some p" and "onerror c \<noteq> Some p"
  shows "promises (stop c) = promises c \<and>
         promise_state (run (stop c) hs) p = promise_state c p"
proof
  show "promises (stop c) = promises c" by (simp add: stop_def)
  have "p < length (promises (stop c))" "onmessage (stop c) \<noteq> Some p" "onerror (stop c) \<noteq> Some p"
    using assms by (simp_all add: stop_def)
  from run_orphan [OF this, of hs] assms(1)
  show "promise_state (run (stop c) hs) p = promise_state c p"
    by (simp add: promise_state_def stop_def)
qed

theorem stop_settles_nothing_witness:
  "promises (stop (dispatch_all client_init [listTools_message, callTool_message (JString ''x'') (JObject [])])) =
     promises (dispatch_all client_init [listTools_message, callTool_message (JString ''x'') (JObject [])]) \<and>
   promise_state (run (stop (dispatch_all client_init
        [listTools_message, callTool_message (JString ''x'') (JObject [])]))
      [Failure (TransportError ''closed''), Response (result_message 1 ok_result)]) 0 = Pending"
proof -
  let ?c = "dispatch_all client_init [listTools_message, callTool_message (JString ''x'') (JObject [])]"
  have range: "0 < length (promises ?c)" by code_simp
  have slot: "onmessage ?c \<noteq> Some 0" by code_simp
  have slot': "onerror ?c \<noteq> Some 0" by code_simp
  have before: "promise_state ?c 0 = Pending" by code_simp
  from stop_settles_nothing [OF range slot slot'] before show ?thesis by simp
qed

text \<open>
  C3 as it is stated fails already for one outstanding request: after \<open>stop\<close> it is
  still pending. With two outstanding requests the first one is still pending even after
  the transport has reported an error.
\<close>

theorem stop_counterexample:
  "\<not> is_rejected (promise_state (stop (snd (callTool client_init (JString ''x'') (JObject []) None))) 0) \<and>
   \<not> is_rejected (promise_state (on_error (stop (dispatch_all client_init
        [listTools_message, callTool_message (JString ''x'') (JObject [])]))
      (TransportError ''closed'')) 0)"
  by code_simp

section \<open>The converted tool list\<close>

text \<open>
  On well-formed tool definitions \<open>getOllamaCompatibleTools\<close> does not throw, and its
  result is the list of the adapted tools.
\<close>

lemma member_field: "v \<noteq> JNull \<Longrightarrow> member (Some v) k = Inr (field v k)"
  by (cases v) simp_all

lemma convert_property_adapted:
  "prop \<noteq> JNull \<Longrightarrow> convert_property prop = Inr (adapted_property prop)"
  by (simp add: convert_property_def adapted_property_def and_then_def member_field)

lemma assign_new: "k \<notin> fst ` set acc \<Longrightarrow> assign k v acc = acc @ [(k, v)]"
  by (induction acc) auto

lemma copy_properties_adapted:
  assumes "distinct (map fst props)" "list_all (\<lambda>kp. snd kp \<noteq> JNull) props"
    and "fst ` set props \<inter> fst ` set acc = {}"
  shows "copy_properties props acc =
         Inr (acc @ map (\<lambda>kp. (fst kp, adapted_property (snd kp))) props)"
  using assms
proof (induction props arbitrary: acc)
  case Nil
  then show ?case by simp
next
  case (Cons kp props)
  obtain k p where kp: "kp = (k, p)" by (cases kp)
  from Cons.prems kp have p: "p \<noteq> JNull" and k: "k \<notin> fst ` set acc" by auto
  have step: "copy_properties (kp # props) acc =
      copy_properties props (acc @ [(k, adapted_property p)])"
    using p k by (simp add: kp convert_property_adapted and_then_def assign_new)
  have "fst ` set props \<inter> fst ` set (acc @ [(k, adapted_property p)]) = {}"
    using Cons.prems kp by auto
  moreover have "distinct (map fst props)" "list_all (\<lambda>kp. snd kp \<noteq> JNull) props"
    using Cons.prems by simp_all
  ultimately have "copy_properties props (acc @ [(k, adapted_property p)]) =
      Inr ((acc @ [(k, adapted_property p)]) @
           map (\<lambda>kp. (fst kp, adapted_property (snd kp))) props)"
    by (intro Cons.IH)
  with step show ?case by (simp add: kp)
qed

lemma convert_tool_adapted:
  assumes "well_formed_tool tool"
  shows "convert_tool tool = Inr (adapted_tool tool)"
proof -
  from assms obtain fs where tool: "tool = JObject fs"
    by (cases tool) (simp_all add: well_formed_tool_def)
  have "\<exists>schema. map_of fs ''inputSchema'' = Some (JObject schema)"
  proof (cases "map_of fs ''inputSchema''")
    case None
    with assms tool show ?thesis by (simp add: well_formed_tool_def)
  next
    case (Some x)
    with assms tool show ?thesis by (cases x) (simp_all add: well_formed_tool_def)
  qed
  then obtain schema where schema: "map_of fs ''inputSchema'' = Some (JObject schema)" ..
  show ?thesis
  proof (cases "map_of schema ''properties''")
    case None
    with tool schema show ?thesis
      by (simp add: convert_tool_def adapted_tool_def declared_parameters_def and_then_def)
  next
    case (Some v)
    with assms tool schema obtain props where props: "v = JObject props"
      by (cases v) (simp_all add: well_formed_tool_def)
    with assms tool schema Some
    have wf: "distinct (map fst props)" "list_all (\<lambda>kp. snd kp \<noteq> JNull) props"
      by (simp_all add: well_formed_tool_def)
    have "copy_properties props [] =
        Inr ([] @ map (\<lambda>kp. (fst kp, adapted_property (snd kp))) props)"
      using wf by (intro copy_properties_adapted) simp_all
    with tool schema Some props show ?thesis
      by (simp add: convert_tool_def adapted_tool_def declared_parameters_def and_then_def)
  qed
qed

lemma convert_all_adapted:
  "list_all well_formed_tool ts \<Longrightarrow> convert_all ts = Inr (map adapted_tool ts)"
  by (induction ts) (simp_all add: convert_tool_adapted and_then_def)

text \<open>
  C8, as amended. The schema adapter is a function of the tool list alone. For every
  well-formed tool definition it copies name and description verbatim; for each declared
  parameter it copies the type, and the description unless that is falsy (an empty
  description is dropped), and nothing else of the parameter; it copies the required list
  verbatim and puts the empty list when the required list is absent.
\<close>

theorem adapter_copies:
  assumes "list_all well_formed_tool ts"
  shows "getOllamaCompatibleTools (Some (JObject [(''tools'', JArray ts)])) =
         Inr (map adapted_tool ts)"
  using assms by (simp add: getOllamaCompatibleTools_def and_then_def convert_all_adapted)

theorem adapter_copies_witness:
  "getOllamaCompatibleTools (Some (JObject [(''tools'', JArray [example_tool])])) =
   Inr [\<lparr>tool_type = ''function'',
         tool_function =
           \<lparr>fn_name = Some (JString ''t''), fn_description = Some (JString ''does t''),
            fn_parameters =
              \<lparr>params_type = ''object'',
               properties =
                 [(''a'', \<lparr>prop_type = Some (JString ''string''),
                          prop_description = Some (JString ''d'')\<rparr>),
                  (''b'', \<lparr>prop_type = Some (JString ''number''), prop_description = None\<rparr>)],
               required = Some (JArray [JString ''a''])\<rparr>\<rparr>\<rparr>]"
proof -
  have formed: "list_all well_formed_tool [example_tool]"
    by code_simp
  have adapted: "map adapted_tool [example_tool] =
    [\<lparr>tool_type = ''function'',
      tool_function =
        \<lparr>fn_name = Some (JString ''t''), fn_description = Some (JString ''does t''),
         fn_parameters =
           \<lparr>params_type = ''object'',
            properties =
              [(''a'', \<lparr>prop_type = Some (JString ''string''),
                       prop_description = Some (JString ''d'')\<rparr>),
               (''b'', \<lparr>prop_type = Some (JString ''number''), prop_description = None\<rparr>)],
            required = Some (JArray [JString ''a''])\<rparr>\<rparr>\<rparr>]"
    by code_simp
  from adapter_copies [OF formed] adapted show ?thesis by simp
qed

text \<open>
  C8 as it is stated fails for a parameter whose description is the empty string: the
  description is not copied, the converted parameter has none.
\<close>

theorem empty_description_counterexample:
  "field undescribed_tool ''inputSchema'' =
     Some (JObject [(''properties'',
       JObject [(''a'', JObject [(''type'', JString ''string''), (''description'', JString [])])])]) \<and>
   copied_property (JObject [(''type'', JString ''string''), (''description'', JString [])]) =
     \<lparr>prop_type = Some (JString ''string''), prop_description = Some (JString [])\<rparr> \<and>
   getOllamaCompatibleTools (Some (JObject [(''tools'', JArray [undescribed_tool])])) =
   Inr [\<lparr>tool_type = ''function'',
         tool_function =
           \<lparr>fn_name = Some (JString ''t''), fn_description = Some (JString ''does t''),
            fn_parameters =
              \<lparr>params_type = ''object'',
               properties =
                 [(''a'', \<lparr>prop_type = Some (JString ''string''), prop_description = None\<rparr>)],
               required = Some (JArray [])\<rparr>\<rparr>\<rparr>]"
  by code_simp

end
